theory Spec2Isabelle
  imports Complex_Main "HOL-Library.Sublist" "HOL-Library.Log_Nat"
begin

section \<open>Data model\<close>

text \<open>
  The animation routine \<^verbatim>\<open>animate_plot(df, x_col, y_col, bar_color)\<close> of
  \<^verbatim>\<open>employees.py\<close> reads two columns of a pandas table: the label column \<^verbatim>\<open>x_col\<close> and
  the numeric column \<^verbatim>\<open>y_col\<close>. A table is a record of these two columns; row \<open>i\<close> of the
  table is position \<open>i\<close> of each column (the default positional index that both callers,
  \<^verbatim>\<open>ages_hist\<close> and \<^verbatim>\<open>unit_bar\<close>, build their tables with).

  A cell of the numeric column is a rational number: a whole count, or the exact value of
  a double. How the program computes with the cells depends on the step, and is the
  subject of the section on the arithmetic below.
\<close>

record dataframe =
  xcol :: "string list"
  ycol :: "rat list"

text \<open>\<^verbatim>\<open>df.shape[0]\<close>: the number of rows.\<close>

definition shape0 :: "dataframe \<Rightarrow> nat" where
  "shape0 df = length (ycol df)"

text \<open>
  \<^verbatim>\<open>df[y_col].max()\<close>: the largest cell, and NaN (here \<open>None\<close>) for a column without
  rows.
\<close>

fun col_max :: "rat list \<Rightarrow> rat option" where
  "col_max [] = None"
| "col_max (y # ys) = Some (fold max ys y)"

text \<open>The comparison \<^verbatim>\<open>m > 8\<close>; every comparison with NaN is false.\<close>

fun exceeds :: "rat option \<Rightarrow> rat \<Rightarrow> bool" where
  "exceeds None b = False"
| "exceeds (Some m) b = (b < m)"

text \<open>
  Lines 58 to 63: the pair \<open>(step, step_time)\<close> chosen from the column maximum.
\<close>

definition select_step :: "dataframe \<Rightarrow> rat \<times> rat" where
  "select_step df =
     (if exceeds (col_max (ycol df)) 8 then (1, 3 / 10) else (1 / 10, 1 / 10))"

section \<open>Arithmetic with the step\<close>

text \<open>
  The step is the Python int \<^verbatim>\<open>1\<close> or the Python float \<^verbatim>\<open>0.1\<close>, and the program divides
  by it, multiplies an index by it and adds it. With the step \<^verbatim>\<open>1\<close> these operations are
  exact: they are integer operations on whole cells, and on doubles of the sizes a chart
  holds dividing by 1, counting up from 0 and adding 1 round nothing. With the step
  \<^verbatim>\<open>0.1\<close> every operation is an operation on doubles: each operand is taken as the
  nearest double and the result is rounded to the nearest double, ties to the even
  significand (overflow and underflow are left out: the exponent is unbounded).

  \<open>round_even\<close> rounds to the nearest integer, ties to even; \<open>exponent2 a\<close> is, for a
  positive \<open>a\<close>, the exponent \<open>e\<close> with \<open>2\<^sup>e \<le> a < 2\<^sup>e\<^sup>+\<^sup>1\<close>; \<open>double_round\<close> rounds
  to 53 significant bits.
\<close>

definition round_even :: "rat \<Rightarrow> int" where
  "round_even x =
     (let f = \<lfloor>x\<rfloor>; d = x - of_int f
      in if d < 1 / 2 then f else if 1 / 2 < d then f + 1 else if even f then f else f + 1)"

definition exponent2 :: "rat \<Rightarrow> int" where
  "exponent2 a =
     (case quotient_of a of
        (n, d) \<Rightarrow> let k = bitlen n - bitlen d in if 2 powi k \<le> a then k else k - 1)"

definition double_round :: "rat \<Rightarrow> rat" where
  "double_round q =
     (if q = 0 then 0
      else let u = 2 powi (exponent2 \<bar>q\<bar> - 52)
           in sgn q * of_int (round_even (\<bar>q\<bar> / u)) * u)"

text \<open>The step is a float when it is not a whole number.\<close>

definition float_step :: "rat \<Rightarrow> bool" where
  "float_step step = (of_int \<lfloor>step\<rfloor> \<noteq> step)"

text \<open>\<^verbatim>\<open>x / step\<close>, \<^verbatim>\<open>i * step\<close> for an index \<open>i\<close>, and \<^verbatim>\<open>x + step\<close>.\<close>

definition step_div :: "rat \<Rightarrow> rat \<Rightarrow> rat" where
  "step_div x step =
     (if float_step step then double_round (double_round x / double_round step)
      else x / step)"

definition step_mul :: "nat \<Rightarrow> rat \<Rightarrow> rat" where
  "step_mul i step =
     (if float_step step then double_round (of_nat i * double_round step)
      else of_nat i * step)"

definition step_add :: "rat \<Rightarrow> rat \<Rightarrow> rat" where
  "step_add x step =
     (if float_step step then double_round (double_round x + double_round step)
      else x + step)"

text \<open>
  \<^verbatim>\<open>np.arange(0, stop, step)\<close>, the only array the routine builds: numpy divides
  \<open>stop\<close> by the step, allocates as many cells as the ceiling of that quotient (none
  when it is not positive), and fills cell \<open>i\<close> with \<open>i\<close> times the step.
\<close>

definition np_arange :: "rat \<Rightarrow> rat \<Rightarrow> rat list" where
  "np_arange stop step = map (\<lambda>i. step_mul i step) [0..<nat \<lceil>step_div stop step\<rceil>]"

section \<open>Effects and errors\<close>

text \<open>
  The routine has two effects: it repaints the chart (\<^verbatim>\<open>container.bar_chart\<close>) and it
  sleeps (\<^verbatim>\<open>time.sleep\<close>). The state carries the working copy \<^verbatim>\<open>df_temp\<close>, the list of
  painted frames and the list of sleep durations, both in the order of the calls. A frame is
  logged together with the value of the loop variable \<^verbatim>\<open>nrow\<close> at the call, so that
  ``the sweep of row \<open>i\<close>'' can be named; the tag takes no part in the computation.
\<close>

record anim =
  df_temp :: dataframe
  frames :: "(nat \<times> dataframe) list"
  sleeps :: "rat list"

text \<open>
  Where the source would raise, the model returns an error: \<^verbatim>\<open>iloc\<close> out of bounds, a
  division by a zero maximum in the sleep expression (numpy yields an infinity that
  \<^verbatim>\<open>time.sleep\<close> rejects), and a sleep length that is negative or NaN.
\<close>

datatype error = IndexError | DivisionByZero | InvalidSleep

text \<open>
  The argument of \<^verbatim>\<open>time.sleep(step_time / df[y_col].max())\<close>. The quotient is kept
  exact: no statement depends on the last bit of a sleep length.
\<close>

definition sleep_length :: "rat \<Rightarrow> rat option \<Rightarrow> error + rat" where
  "sleep_length step_time mx =
     (case mx of
        None \<Rightarrow> Inl InvalidSleep
      | Some m \<Rightarrow>
          if m = 0 then Inl DivisionByZero
          else if step_time / m < 0 then Inl InvalidSleep
          else Inr (step_time / m))"

section \<open>The animation routine\<close>

text \<open>
  The inner loop (lines 65 to 68) over the cells \<open>cs\<close> of the \<^verbatim>\<open>np.arange\<close> array: store
  \<^verbatim>\<open>current_value + step\<close> at row \<^verbatim>\<open>nrow\<close> of the working copy, repaint, sleep.
\<close>

fun sweep :: "dataframe \<Rightarrow> nat \<Rightarrow> rat \<Rightarrow> rat \<Rightarrow> rat list \<Rightarrow> anim \<Rightarrow> error + anim" where
  "sweep df nrow step step_time [] st = Inr st"
| "sweep df nrow step step_time (current_value # rest) st =
     (let t = (df_temp st)\<lparr>ycol := (ycol (df_temp st))[nrow := step_add current_value step]\<rparr>
      in case sleep_length step_time (col_max (ycol df)) of
           Inl e \<Rightarrow> Inl e
         | Inr d \<Rightarrow>
             sweep df nrow step step_time rest
               (st\<lparr>df_temp := t, frames := frames st @ [(nrow, t)],
                   sleeps := sleeps st @ [d]\<rparr>))"

text \<open>The outer loop (line 64) over the row numbers.\<close>

fun rows_loop :: "dataframe \<Rightarrow> rat \<Rightarrow> rat \<Rightarrow> nat list \<Rightarrow> anim \<Rightarrow> error + anim" where
  "rows_loop df step step_time [] st = Inr st"
| "rows_loop df step step_time (nrow # rest) st =
     (if nrow < length (ycol df) then
        (case sweep df nrow step step_time (np_arange (ycol df ! nrow) step) st of
           Inl e \<Rightarrow> Inl e
         | Inr st' \<Rightarrow> rows_loop df step step_time rest st')
      else Inl IndexError)"

text \<open>
  \<^verbatim>\<open>animate_plot\<close>: the working copy is the table with its numeric column set to 0
  (lines 56 and 57). The result is the final state, or the error raised.
\<close>

definition init_anim :: "dataframe \<Rightarrow> anim" where
  "init_anim df =
     \<lparr>df_temp = df\<lparr>ycol := map (\<lambda>_. 0) (ycol df)\<rparr>, frames = [], sleeps = []\<rparr>"

definition animate_plot :: "dataframe \<Rightarrow> error + anim" where
  "animate_plot df =
     (case select_step df of
        (step, step_time) \<Rightarrow> rows_loop df step step_time [0..<shape0 df] (init_anim df))"

section \<open>Closed forms used in the statements\<close>

text \<open>
  The value that a finished sweep leaves in a row with target \<open>T\<close>: the last cell of the
  \<^verbatim>\<open>np.arange\<close> array plus the step, and 0 when the array is empty.
\<close>

definition grown :: "rat \<Rightarrow> rat \<Rightarrow> rat" where
  "grown step T =
     (if np_arange T step = [] then 0 else step_add (last (np_arange T step)) step)"

text \<open>
  The numeric column of the working copy when the outer loop reaches row \<open>k\<close>: the rows
  before \<open>k\<close> are grown, the others still hold 0.
\<close>

definition partial_col :: "dataframe \<Rightarrow> rat \<Rightarrow> nat \<Rightarrow> rat list" where
  "partial_col df step k =
     map (grown step) (take k (ycol df)) @ replicate (length (ycol df) - k) 0"

text \<open>The frames painted during the sweep of row \<open>i\<close>, each tagged with \<open>i\<close>.\<close>

definition row_frames :: "dataframe \<Rightarrow> rat \<Rightarrow> nat \<Rightarrow> (nat \<times> dataframe) list" where
  "row_frames df step i =
     map (\<lambda>c. (i, df\<lparr>ycol := (partial_col df step i)[i := step_add c step]\<rparr>))
       (np_arange (ycol df ! i) step)"

text \<open>
  A list of frames is a chain from \<open>prev\<close> when every frame is its predecessor (the first
  one: \<open>prev\<close>) with the numeric cell of the frame's own row replaced, and nothing else
  changed: same labels, same number of rows, same cells in all other rows.
\<close>

fun frame_chain :: "dataframe \<Rightarrow> (nat \<times> dataframe) list \<Rightarrow> bool" where
  "frame_chain prev [] = True"
| "frame_chain prev ((i, f) # rest) =
     (f = prev\<lparr>ycol := (ycol prev)[i := ycol f ! i]\<rparr> \<and> frame_chain f rest)"

text \<open>The table on the chart after the frames \<open>fs\<close> were painted, starting from \<open>z\<close>.\<close>

definition last_frame :: "dataframe \<Rightarrow> (nat \<times> dataframe) list \<Rightarrow> dataframe" where
  "last_frame z fs = (if fs = [] then z else snd (last fs))"

section \<open>The sidebar filters\<close>

text \<open>
  The main script (lines 198 to 219) narrows the loaded table by three sidebar controls. A
  row of the employee table is a record of the three columns the filters read (the table's
  other columns take no part in them); the table is the list of its rows, in order. The
  columns \<^verbatim>\<open>Employee_ID\<close>, \<^verbatim>\<open>Hometown\<close> and \<^verbatim>\<open>Unit\<close> hold strings; a character is
  one of the 256 codes of \<^typ>\<open>char\<close>, read as the code point of that number.
\<close>

record employee =
  Employee_ID :: string
  Hometown :: string
  Unit :: string

text \<open>
  Boolean indexing \<^verbatim>\<open>df[keep]\<close>: the rows at the positions where the boolean column
  \<open>keep\<close> (one entry per row) is true, in their order.
\<close>

definition bool_index :: "'a list \<Rightarrow> bool list \<Rightarrow> 'a list" where
  "bool_index df keep = map fst (filter snd (zip df keep))"

text \<open>
  \<^verbatim>\<open>Series.str.contains(pat, case=False)\<close> leaves \<^verbatim>\<open>regex\<close> at its default
  \<^verbatim>\<open>True\<close>: pandas compiles \<open>pat\<close> as a regular expression with the flag
  \<^verbatim>\<open>re.IGNORECASE\<close> and keeps the cells in which \<^verbatim>\<open>search\<close> finds a match. The model
  covers the patterns built from ordinary ASCII characters and the dot: an ordinary
  character matches itself up to the case of the letters A to Z, the dot matches every
  character but the newline. A pattern with any other of the special characters of
  \<^verbatim>\<open>re\<close> (or a character beyond ASCII) is outside the model, and its result is \<open>None\<close>.
\<close>

definition lower_chr :: "char \<Rightarrow> char" where
  "lower_chr c =
     (let n = (of_char c :: nat) in if 65 \<le> n \<and> n \<le> 90 then char_of (n + 32) else c)"

datatype re_atom = Lit char | AnyChar

text \<open>The special characters of \<^verbatim>\<open>re\<close>; the last one is the backslash.\<close>

definition re_special :: "char \<Rightarrow> bool" where
  "re_special c = (c \<in> set ''.^$*+?{}[]|()'' \<or> c = CHR 0x5C)"

fun re_parse :: "string \<Rightarrow> re_atom list option" where
  "re_parse [] = Some []"
| "re_parse (c # cs) =
     (if c = CHR ''.'' then map_option ((#) AnyChar) (re_parse cs)
      else if re_special c \<or> (128 :: nat) \<le> of_char c then None
      else map_option ((#) (Lit c)) (re_parse cs))"

fun atom_matches :: "re_atom \<Rightarrow> char \<Rightarrow> bool" where
  "atom_matches AnyChar t = (t \<noteq> CHR 0x0A)"
| "atom_matches (Lit c) t = (lower_chr c = lower_chr t)"

text \<open>A match of the whole pattern at the start of \<open>s\<close>, and a match anywhere in \<open>s\<close>.\<close>

fun match_here :: "re_atom list \<Rightarrow> string \<Rightarrow> bool" where
  "match_here [] s = True"
| "match_here (a # as) [] = False"
| "match_here (a # as) (t # ts) = (atom_matches a t \<and> match_here as ts)"

fun re_search :: "re_atom list \<Rightarrow> string \<Rightarrow> bool" where
  "re_search p [] = match_here p []"
| "re_search p (t # ts) = (match_here p (t # ts) \<or> re_search p ts)"

definition str_contains :: "string list \<Rightarrow> string \<Rightarrow> bool list option" where
  "str_contains col pat = map_option (\<lambda>p. map (re_search p) col) (re_parse pat)"

text \<open>
  Lines 205 to 207: the Employee ID filter; an empty input is falsy and filters nothing.
\<close>

definition filter_employee_id :: "string \<Rightarrow> employee list \<Rightarrow> employee list option" where
  "filter_employee_id text_input_id df =
     (if text_input_id \<noteq> []
      then map_option (bool_index df) (str_contains (map Employee_ID df) text_input_id)
      else Some df)"

text \<open>Lines 211 to 213 and 217 to 219: the two select boxes.\<close>

definition filter_hometown :: "string \<Rightarrow> employee list \<Rightarrow> employee list" where
  "filter_hometown selectbox_hometown df =
     (if selectbox_hometown \<noteq> ''All''
      then bool_index df (map (\<lambda>h. h = selectbox_hometown) (map Hometown df))
      else df)"

definition filter_unit :: "string \<Rightarrow> employee list \<Rightarrow> employee list" where
  "filter_unit selectbox_unit df =
     (if selectbox_unit \<noteq> ''All''
      then bool_index df (map (\<lambda>u. u = selectbox_unit) (map Unit df))
      else df)"

text \<open>The table shown, \<^verbatim>\<open>df_employees_filtred\<close>: the three filters in the script's order.\<close>

definition employees_filtred ::
  "string \<Rightarrow> string \<Rightarrow> string \<Rightarrow> employee list \<Rightarrow> employee list option" where
  "employees_filtred text_input_id selectbox_hometown selectbox_unit df_employees =
     map_option (filter_unit selectbox_unit \<circ> filter_hometown selectbox_hometown)
       (filter_employee_id text_input_id df_employees)"

section \<open>Properties of the model\<close>

lemma round_even_pos: "1 \<le> x \<Longrightarrow> 0 < round_even x"
proof -
  assume "1 \<le> x"
  then have "1 \<le> \<lfloor>x\<rfloor>" by (simp add: le_floor_iff)
  then show ?thesis by (auto simp: round_even_def Let_def)
qed

lemma exponent2_le:
  assumes "0 < a"
  shows "2 powi (exponent2 a) \<le> a"
proof -
  obtain n d where q: "quotient_of a = (n, d)" by (cases "quotient_of a")
  then have d: "0 < d" and a: "a = of_int n / of_int d"
    by (simp_all add: quotient_of_denom_pos quotient_of_div)
  from assms a d have n: "0 < n" by (simp add: zero_less_divide_iff)
  define k where "k = bitlen n - bitlen d"
  show ?thesis
  proof (cases "2 powi k \<le> a")
    case True
    then show ?thesis by (simp add: exponent2_def q k_def)
  next
    case False
    from bitlen_bounds [OF n] have lo: "(2 :: int) ^ nat (bitlen n - 1) \<le> n" by simp
    from bitlen_bounds [OF d] have hi: "d < (2 :: int) ^ nat (bitlen d)" by simp
    have bn: "1 \<le> bitlen n" using n by (simp add: bitlen_alt_def)
    have bd: "0 \<le> bitlen d" by (rule bitlen_nonneg)
    have "(2 :: rat) powi (k - 1) = 2 powi (bitlen n - 1) / 2 powi (bitlen d)"
      unfolding k_def by (subst power_int_diff [symmetric]) (simp_all add: algebra_simps)
    also have "\<dots> = 2 ^ nat (bitlen n - 1) / 2 ^ nat (bitlen d)"
      using bn bd by (simp add: power_int_def)
    also have "\<dots> \<le> of_int n / 2 ^ nat (bitlen d)"
    proof -
      have "(2 :: rat) ^ nat (bitlen n - 1) \<le> of_int n"
        using lo by (metis of_int_le_iff of_int_numeral of_int_power)
      then show ?thesis by (simp add: divide_right_mono)
    qed
    also have "\<dots> \<le> of_int n / of_int d"
    proof -
      have "(of_int d :: rat) \<le> 2 ^ nat (bitlen d)"
        using hi by (metis less_imp_le of_int_le_iff of_int_numeral of_int_power)
      with d n show ?thesis by (simp add: divide_left_mono)
    qed
    finally have "(2 :: rat) powi (k - 1) \<le> a" by (simp add: a)
    with False show ?thesis by (simp add: exponent2_def q k_def)
  qed
qed





lemma double_round_pos:
  assumes "0 < q"
  shows "0 < double_round q"
proof -
  define u :: rat where "u = 2 powi (exponent2 \<bar>q\<bar> - 52)"
  have u: "0 < u" by (simp add: u_def)
  have "u = 2 powi (exponent2 \<bar>q\<bar>) / 2 powi 52"
    unfolding u_def by (subst power_int_diff) simp_all
  also have "\<dots> \<le> 2 powi (exponent2 \<bar>q\<bar>)"
    by (simp add: divide_le_eq)
  also have "\<dots> \<le> \<bar>q\<bar>" using assms by (intro exponent2_le) simp
  finally have "1 \<le> \<bar>q\<bar> / u" using u by (simp add: le_divide_eq)
  then have "0 < round_even (\<bar>q\<bar> / u)" by (rule round_even_pos)
  then have "0 < (of_int (round_even (\<bar>q\<bar> / u)) :: rat) * u"
    using u by (simp add: mult_pos_pos)
  moreover have "double_round q = of_int (round_even (\<bar>q\<bar> / u)) * u"
    using assms by (simp add: double_round_def u_def Let_def)
  ultimately show ?thesis by simp
qed

lemma double_round_uminus: "double_round (- q) = - double_round q"
  by (simp add: double_round_def Let_def sgn_minus)

lemma double_round_le_0_iff: "double_round q \<le> 0 \<longleftrightarrow> q \<le> 0"
proof (cases "0 < q")
  case True
  with double_round_pos [OF True] show ?thesis by simp
next
  case False
  show ?thesis
  proof (cases "q = 0")
    case True
    then show ?thesis by (simp add: double_round_def)
  next
    case neq: False
    with False have "0 < - q" by simp
    from double_round_pos [OF this] have "double_round q < 0"
      by (simp add: double_round_uminus)
    with False show ?thesis by simp
  qed
qed

lemma double_round_0 [simp]: "double_round 0 = 0"
  by (simp add: double_round_def)

lemma double_round_pos_iff: "0 < double_round q \<longleftrightarrow> 0 < q"
  using double_round_le_0_iff [of q] by (simp add: not_le [symmetric])

lemma float_step_one [simp]: "\<not> float_step 1"
  by (simp add: float_step_def)


lemma step_div_pos_iff:
  assumes "0 < step"
  shows "step_div T step \<le> 0 \<longleftrightarrow> T \<le> 0"
proof (cases "float_step step")
  case True
  from assms have "0 < double_round step" by (rule double_round_pos)
  then have "double_round T / double_round step \<le> 0 \<longleftrightarrow> double_round T \<le> 0"
    by (simp add: divide_le_0_iff not_less less_imp_le)
  with True show ?thesis by (simp add: step_div_def double_round_le_0_iff)
next
  case False
  with assms show ?thesis by (simp add: step_div_def divide_le_0_iff not_less less_imp_le)
qed

lemma col_max_eq_Max:
  assumes "ys \<noteq> []"
  shows "col_max ys = Some (Max (set ys))"
proof (cases ys)
  case Nil
  with assms show ?thesis by simp
next
  case (Cons y zs)
  have "fold max zs y = Max (set (y # zs))" by (rule Max.set_eq_fold [symmetric])
  with Cons show ?thesis by simp
qed

lemma exceeds_col_max: "exceeds (col_max ys) b \<longleftrightarrow> (\<exists>y\<in>set ys. b < y)"
proof (cases "ys = []")
  case True
  then show ?thesis by simp
next
  case False
  then show ?thesis
    by (simp add: col_max_eq_Max Max_gr_iff)
qed

lemma select_step_pos: "select_step df = (step, step_time) \<Longrightarrow> 0 < step \<and> 0 < step_time"
  by (auto simp: select_step_def split: if_splits)

lemma sweep_zero_max:
  assumes "col_max (ycol df) = Some 0"
  shows "sweep df nrow step step_time (c # cs) st = Inl DivisionByZero"
  using assms by (simp add: sleep_length_def)

lemma sleep_length_ok:
  assumes "i < length ys" "0 < ys ! i" "0 < step_time"
  shows "sleep_length step_time (col_max ys) = Inr (step_time / Max (set ys))"
proof -
  from assms(1) have ne: "ys \<noteq> []" by auto
  have "ys ! i \<le> Max (set ys)" using assms(1) by simp
  with assms(2) have "0 < Max (set ys)" by linarith
  with assms(3) have "\<not> step_time / Max (set ys) < 0" "Max (set ys) \<noteq> 0"
    by (simp_all add: divide_less_0_iff)
  then show ?thesis
    by (simp add: sleep_length_def col_max_eq_Max ne)
qed

lemma np_arange_Nil_iff: "0 < step \<Longrightarrow> np_arange T step = [] \<longleftrightarrow> T \<le> 0"
  by (simp add: np_arange_def ceiling_le_zero step_div_pos_iff)


lemma sweep_run:
  assumes "cs \<noteq> [] \<Longrightarrow> sleep_length step_time (col_max (ycol df)) = Inr d"
  shows "sweep df nrow step step_time cs st =
           Inr \<lparr>df_temp = (if cs = [] then df_temp st
                           else (df_temp st)\<lparr>ycol := (ycol (df_temp st))[nrow := step_add (last cs) step]\<rparr>),
                frames = frames st @
                  map (\<lambda>c. (nrow, (df_temp st)\<lparr>ycol := (ycol (df_temp st))[nrow := step_add c step]\<rparr>)) cs,
                sleeps = sleeps st @ replicate (length cs) d\<rparr>"
  using assms
proof (induction cs arbitrary: st)
  case Nil
  then show ?case by simp
next
  case (Cons c cs)
  from Cons.prems have sl: "sleep_length step_time (col_max (ycol df)) = Inr d" by simp
  then have "cs \<noteq> [] \<Longrightarrow> sleep_length step_time (col_max (ycol df)) = Inr d" by simp
  note IH = Cons.IH [OF this]
  show ?case
    by (simp add: sl IH Let_def replicate_app_Cons_same)
qed

lemma rows_loop_append:
  "rows_loop df step step_time (rs @ rs') st =
     (case rows_loop df step step_time rs st of
        Inl e \<Rightarrow> Inl e
      | Inr st' \<Rightarrow> rows_loop df step step_time rs' st')"
  by (induction rs arbitrary: st) (simp_all split: sum.splits)

lemma last_np_arange:
  assumes "np_arange T step \<noteq> []"
  shows "step_add (last (np_arange T step)) step = grown step T"
  using assms by (simp add: grown_def)

lemma grown_nonpos: "0 < step \<Longrightarrow> T \<le> 0 \<Longrightarrow> grown step T = 0"
  by (simp add: grown_def np_arange_Nil_iff)

lemma partial_col_length [simp]: "k \<le> length (ycol df) \<Longrightarrow> length (partial_col df step k) = length (ycol df)"
  by (simp add: partial_col_def)

lemma partial_col_Suc:
  assumes "k < length (ycol df)"
  shows "(partial_col df step k)[k := grown step (ycol df ! k)] = partial_col df step (Suc k)"
proof (rule nth_equalityI)
  show "length ((partial_col df step k)[k := grown step (ycol df ! k)]) = length (partial_col df step (Suc k))"
    using assms by simp
next
  fix j assume "j < length ((partial_col df step k)[k := grown step (ycol df ! k)])"
  with assms have j: "j < length (ycol df)" by simp
  show "(partial_col df step k)[k := grown step (ycol df ! k)] ! j = partial_col df step (Suc k) ! j"
    using assms j
    by (auto simp: partial_col_def nth_append nth_list_update less_Suc_eq)
qed

lemma partial_col_0: "partial_col df step 0 = map (\<lambda>_. 0) (ycol df)"
  by (simp add: partial_col_def map_replicate_const)

lemma partial_col_full: "partial_col df step (length (ycol df)) = map (grown step) (ycol df)"
  by (simp add: partial_col_def)

lemma run_prefix:
  assumes sel: "select_step df = (step, step_time)"
    and k: "k \<le> length (ycol df)"
  shows "rows_loop df step step_time [0..<k] (init_anim df) =
           Inr \<lparr>df_temp = df\<lparr>ycol := partial_col df step k\<rparr>,
                frames = concat (map (row_frames df step) [0..<k]),
                sleeps = replicate (\<Sum>i<k. length (np_arange (ycol df ! i) step))
                           (step_time / Max (set (ycol df)))\<rparr>"
  using k
proof (induction k)
  case 0
  show ?case by (simp add: init_anim_def partial_col_0)
next
  case (Suc k)
  let ?T = "ycol df ! k"
  let ?cs = "np_arange ?T step"
  let ?d = "step_time / Max (set (ycol df))"
  from Suc.prems have kn: "k < length (ycol df)" by simp
  from sel have pos: "0 < step" "0 < step_time" using select_step_pos by blast+
  have sl: "?cs \<noteq> [] \<Longrightarrow> sleep_length step_time (col_max (ycol df)) = Inr ?d"
  proof -
    assume "?cs \<noteq> []"
    with pos(1) have "0 < ?T" by (simp add: np_arange_Nil_iff)
    with kn pos(2) show ?thesis by (simp add: sleep_length_ok)
  qed
  have upd: "(if ?cs = [] then partial_col df step k
              else (partial_col df step k)[k := step_add (last ?cs) step]) = partial_col df step (Suc k)"
  proof (cases "?cs = []")
    case True
    with pos(1) have "?T \<le> 0" by (simp add: np_arange_Nil_iff)
    with pos(1) have "grown step ?T = 0" by (rule grown_nonpos)
    moreover have "partial_col df step k ! k = 0"
      using kn by (simp add: partial_col_def nth_append)
    ultimately have "(partial_col df step k)[k := grown step ?T] = partial_col df step k"
      by (metis list_update_id)
    with True show ?thesis by (simp add: partial_col_Suc [OF kn])
  next
    case False
    then show ?thesis by (simp add: last_np_arange partial_col_Suc [OF kn])
  qed
  let ?st = "\<lparr>df_temp = df\<lparr>ycol := partial_col df step k\<rparr>,
                frames = concat (map (row_frames df step) [0..<k]),
                sleeps = replicate (\<Sum>i<k. length (np_arange (ycol df ! i) step)) ?d\<rparr>"
  from Suc.IH kn have IH: "rows_loop df step step_time [0..<k] (init_anim df) = Inr ?st"
    by simp
  have dft: "(if ?cs = [] then df_temp ?st
              else (df_temp ?st)\<lparr>ycol := (ycol (df_temp ?st))[k := step_add (last ?cs) step]\<rparr>)
             = df\<lparr>ycol := partial_col df step (Suc k)\<rparr>"
    using upd by (cases "?cs = []") simp_all
  have frs: "map (\<lambda>c. (k, (df_temp ?st)\<lparr>ycol := (ycol (df_temp ?st))[k := step_add c step]\<rparr>)) ?cs
             = row_frames df step k"
    by (simp add: row_frames_def)
  have sls: "sleeps ?st @ replicate (length ?cs) ?d
             = replicate (\<Sum>i<Suc k. length (np_arange (ycol df ! i) step)) ?d"
    by (simp add: replicate_add [symmetric])
  have sw: "sweep df k step step_time ?cs ?st =
              Inr \<lparr>df_temp = df\<lparr>ycol := partial_col df step (Suc k)\<rparr>,
                   frames = concat (map (row_frames df step) [0..<Suc k]),
                   sleeps = replicate (\<Sum>i<Suc k. length (np_arange (ycol df ! i) step)) ?d\<rparr>"
  proof -
    have "sweep df k step step_time ?cs ?st =
            Inr \<lparr>df_temp = (if ?cs = [] then df_temp ?st
                     else (df_temp ?st)\<lparr>ycol := (ycol (df_temp ?st))[k := step_add (last ?cs) step]\<rparr>),
                 frames = frames ?st @
                   map (\<lambda>c. (k, (df_temp ?st)\<lparr>ycol := (ycol (df_temp ?st))[k := step_add c step]\<rparr>)) ?cs,
                 sleeps = sleeps ?st @ replicate (length ?cs) ?d\<rparr>"
      by (rule sweep_run) (rule sl)
    also have "\<dots> = Inr \<lparr>df_temp = df\<lparr>ycol := partial_col df step (Suc k)\<rparr>,
                   frames = frames ?st @ row_frames df step k,
                   sleeps = replicate (\<Sum>i<Suc k. length (np_arange (ycol df ! i) step)) ?d\<rparr>"
      by (simp only: dft frs sls)
    finally show ?thesis by simp
  qed
  show ?case
    by (simp add: rows_loop_append IH kn sw del: sum.lessThan_Suc)
qed

lemma animate_plot_run:
  assumes sel: "select_step df = (step, step_time)"
  shows "animate_plot df =
           Inr \<lparr>df_temp = df\<lparr>ycol := map (grown step) (ycol df)\<rparr>,
                frames = concat (map (row_frames df step) [0..<length (ycol df)]),
                sleeps = replicate (\<Sum>i<length (ycol df). length (np_arange (ycol df ! i) step))
                           (step_time / Max (set (ycol df)))\<rparr>"
  using run_prefix [OF sel order_refl]
  by (simp add: animate_plot_def sel shape0_def partial_col_full)

lemma in_row_frames:
  "(r, f) \<in> set (row_frames df step i) \<longleftrightarrow>
     r = i \<and> (\<exists>c\<in>set (np_arange (ycol df ! i) step).
                f = df\<lparr>ycol := (partial_col df step i)[i := step_add c step]\<rparr>)"
  by (auto simp: row_frames_def)

lemma frame_shape:
  assumes sel: "select_step df = (step, step_time)"
    and run: "animate_plot df = Inr st"
    and mem: "(i, f) \<in> set (frames st)"
  shows "i < length (ycol df) \<and>
         (\<exists>c\<in>set (np_arange (ycol df ! i) step).
            f = df\<lparr>ycol := (partial_col df step i)[i := step_add c step]\<rparr>)"
proof -
  from run have "frames st = concat (map (row_frames df step) [0..<length (ycol df)])"
    unfolding animate_plot_run [OF sel] by auto
  with mem obtain r where r: "r < length (ycol df)" "(i, f) \<in> set (row_frames df step r)"
    by auto
  then show ?thesis by (auto simp: in_row_frames)
qed

lemma partial_col_nth:
  assumes "k \<le> length (ycol df)" "j < length (ycol df)"
  shows "partial_col df step k ! j = (if j < k then grown step (ycol df ! j) else 0)"
  using assms by (auto simp: partial_col_def nth_append)

lemma np_arange_one: "np_arange T 1 = map of_nat [0..<nat \<lceil>T\<rceil>]"
  by (simp add: np_arange_def step_div_def step_mul_def)

lemma step_add_one: "step_add c 1 = c + 1"
  by (simp add: step_add_def)

lemma grown_one: "grown 1 T = of_nat (nat \<lceil>T\<rceil>)"
proof (cases "nat \<lceil>T\<rceil>")
  case 0
  then show ?thesis by (simp add: grown_def np_arange_one)
next
  case (Suc m)
  then show ?thesis by (simp add: grown_def np_arange_one step_add_one)
qed




lemma grown_whole:
  assumes "T \<in> \<int>" "0 \<le> T" shows "grown 1 T = T"
proof -
  from assms(1) obtain z where z: "T = of_int z" by (auto elim: Ints_cases)
  with assms(2) have "0 \<le> z" by simp
  then show ?thesis by (simp add: grown_one z)
qed

lemma filter_row_frames:
  "filter (\<lambda>(r, f). r = i) (row_frames df step m) = (if m = i then row_frames df step m else [])"
  by (simp add: row_frames_def filter_map comp_def)

lemma filter_all_frames:
  "filter (\<lambda>(r, f). r = i) (concat (map (row_frames df step) [0..<n])) =
     (if i < n then row_frames df step i else [])"
  by (induction n) (auto simp: filter_row_frames)

lemma length_row_frames: "length (row_frames df step i) = length (np_arange (ycol df ! i) step)"
  by (simp add: row_frames_def)

lemma length_all_frames:
  "length (concat (map (row_frames df step) [0..<n])) = (\<Sum>i<n. length (np_arange (ycol df ! i) step))"
  by (induction n) (simp_all add: length_row_frames)

lemma tags_sorted: "sorted (map fst (concat (map (row_frames df step) [0..<n])))"
proof (induction n)
  case 0
  show ?case by simp
next
  case (Suc n)
  have lo: "\<forall>x\<in>set (concat (map (row_frames df step) [0..<n])). fst x \<le> n"
    by (auto simp: row_frames_def)
  have "map fst (row_frames df step n) = replicate (length (row_frames df step n)) n"
    by (simp add: row_frames_def comp_def map_replicate_const)
  then have hi: "sorted (map fst (row_frames df step n))"
    and eq: "\<forall>y\<in>set (map fst (row_frames df step n)). y = n"
    by (simp_all add: sorted_replicate)
  show ?case using Suc lo hi eq
    by (auto simp: sorted_append)
qed

lemma frame_chain_snoc:
  "frame_chain z (fs @ [(i, f)]) \<longleftrightarrow>
     frame_chain z fs \<and>
     f = (last_frame z fs)\<lparr>ycol := (ycol (last_frame z fs))[i := ycol f ! i]\<rparr>"
proof (induction fs arbitrary: z)
  case Nil
  show ?case by (simp add: last_frame_def)
next
  case (Cons a fs)
  obtain j g where a: "a = (j, g)" by (cases a)
  show ?case using Cons [of g]
    by (auto simp: a last_frame_def)
qed

lemma list_update_self: "xs[n := xs[n := v] ! n] = xs[n := v]"
  by (cases "n < length xs") (simp_all add: list_update_beyond)

lemma sweep_chain:
  assumes "frame_chain z (frames st)" "df_temp st = last_frame z (frames st)"
    and "sweep df nrow step step_time cs st = Inr st'"
  shows "frame_chain z (frames st') \<and> df_temp st' = last_frame z (frames st')"
  using assms
proof (induction cs arbitrary: st)
  case Nil
  then show ?case by simp
next
  case (Cons c cs)
  let ?t = "(df_temp st)\<lparr>ycol := (ycol (df_temp st))[nrow := step_add c step]\<rparr>"
  from Cons.prems(3) obtain d where
    d: "sleep_length step_time (col_max (ycol df)) = Inr d"
    by (auto simp: Let_def split: sum.splits)
  let ?st = "st\<lparr>df_temp := ?t, frames := frames st @ [(nrow, ?t)], sleeps := sleeps st @ [d]\<rparr>"
  from Cons.prems(3) d have run: "sweep df nrow step step_time cs ?st = Inr st'"
    by (simp add: Let_def)
  have "frame_chain z (frames ?st)"
    using Cons.prems(1,2) by (simp add: frame_chain_snoc list_update_self)
  moreover have "df_temp ?st = last_frame z (frames ?st)"
    by (simp add: last_frame_def)
  ultimately show ?case using run by (rule Cons.IH)
qed

lemma rows_loop_chain:
  assumes "frame_chain z (frames st)" "df_temp st = last_frame z (frames st)"
    and "rows_loop df step step_time rs st = Inr st'"
  shows "frame_chain z (frames st') \<and> df_temp st' = last_frame z (frames st')"
  using assms
proof (induction rs arbitrary: st)
  case Nil
  then show ?case by simp
next
  case (Cons r rs)
  from Cons.prems(3) obtain st1 where
    s1: "sweep df r step step_time (np_arange (ycol df ! r) step) st = Inr st1"
    and s2: "rows_loop df step step_time rs st1 = Inr st'"
    by (auto split: if_splits sum.splits)
  from sweep_chain [OF Cons.prems(1,2) s1]
  have "frame_chain z (frames st1)" "df_temp st1 = last_frame z (frames st1)"
    by simp_all
  then show ?case using s2 by (rule Cons.IH)
qed

lemma animate_plot_chain:
  assumes "animate_plot df = Inr st"
  shows "frame_chain (df\<lparr>ycol := map (\<lambda>_. 0) (ycol df)\<rparr>) (frames st) \<and>
         df_temp st = last_frame (df\<lparr>ycol := map (\<lambda>_. 0) (ycol df)\<rparr>) (frames st)"
proof -
  obtain step step_time where sel: "select_step df = (step, step_time)"
    by (cases "select_step df")
  with assms have run: "rows_loop df step step_time [0..<shape0 df] (init_anim df) = Inr st"
    by (simp add: animate_plot_def)
  show ?thesis
    by (rule rows_loop_chain [OF _ _ run]) (simp_all add: init_anim_def last_frame_def)
qed

lemma select_step_coarse:
  assumes "\<exists>v\<in>set (ycol df). 8 < v"
  shows "select_step df = (1, 3 / 10)"
  using assms by (simp add: select_step_def exceeds_col_max)


































lemma row_frames_Nil_iff:
  assumes "0 < step"
  shows "row_frames df step i = [] \<longleftrightarrow> ycol df ! i \<le> 0"
  using assms by (simp add: row_frames_def np_arange_Nil_iff)

lemma all_frames_Nil_iff:
  assumes "0 < step"
  shows "concat (map (row_frames df step) [0..<length (ycol df)]) = [] \<longleftrightarrow>
         (\<forall>v\<in>set (ycol df). v \<le> 0)"
  by (auto simp: row_frames_Nil_iff [OF assms] all_set_conv_all_nth)

lemma bool_index_map: "bool_index xs (map P xs) = filter P xs"
  by (induction xs) (simp_all add: bool_index_def)

lemma re_parse_plain:
  assumes "\<forall>c\<in>set pat. \<not> re_special c \<and> of_char c < (128 :: nat)"
  shows "re_parse pat = Some (map Lit pat)"
  using assms
proof (induction pat)
  case Nil
  show ?case by simp
next
  case (Cons c cs)
  then have "c \<noteq> CHR ''.''" by (auto simp: re_special_def)
  with Cons show ?case by (simp add: not_le)
qed

lemma match_here_literal:
  "match_here (map Lit p) s \<longleftrightarrow> prefix (map lower_chr p) (map lower_chr s)"
proof (induction p arbitrary: s)
  case Nil
  show ?case by simp
next
  case (Cons c p)
  show ?case by (cases s) (simp_all add: Cons)
qed

lemma re_search_literal:
  "re_search (map Lit p) s \<longleftrightarrow> sublist (map lower_chr p) (map lower_chr s)"
proof (induction s)
  case Nil
  show ?case by (cases p) simp_all
next
  case (Cons t ts)
  have "sublist (map lower_chr p) (map lower_chr (t # ts)) \<longleftrightarrow>
        prefix (map lower_chr p) (map lower_chr (t # ts)) \<or>
        sublist (map lower_chr p) (map lower_chr ts)"
    by (simp add: sublist_Cons_right)
  then show ?case by (simp add: Cons match_here_literal del: match_here.simps)
qed

section \<open>Claims about the animation routine\<close>

text \<open>
  Claim C1, as amended. For every table whose numeric column holds non-negative whole
  numbers and whose maximum exceeds 8 (the branch with step 1), \<^verbatim>\<open>animate_plot\<close> returns
  and the working copy is then equal to the input table, row by row; the table
  \<open>{Ages: [18-19, 20-29], Counts: [5, 12]}\<close> is the instance of the witness.
\<close>

theorem display_equals_target_whole:
  assumes "\<forall>v\<in>set (ycol df). 0 \<le> v \<and> v \<in> \<int>"
    and "\<exists>v\<in>set (ycol df). 8 < v"
  shows "\<exists>st. animate_plot df = Inr st \<and> df_temp st = df"
proof -
  have sel: "select_step df = (1, 3 / 10)" using assms(2) by (rule select_step_coarse)
  have "map (grown 1) (ycol df) = ycol df"
    using assms(1) by (intro map_idI) (simp add: grown_whole)
  then show ?thesis by (simp add: animate_plot_run [OF sel])
qed

theorem display_equals_target_whole_witness:
  "(0 :: rat) \<le> 5 \<and> (5 :: rat) \<in> \<int> \<and> (0 :: rat) \<le> 12 \<and> (12 :: rat) \<in> \<int> \<and> (8 :: rat) < 12 \<and>
   map_sum id df_temp (animate_plot \<lparr>xcol = [''18-19'', ''20-29''], ycol = [5, 12]\<rparr>) =
     Inr \<lparr>xcol = [''18-19'', ''20-29''], ycol = [5, 12]\<rparr>"
  using display_equals_target_whole [of "\<lparr>xcol = [''18-19'', ''20-29''], ycol = [5, 12]\<rparr>"]
  by auto

text \<open>
  The claim as first stated, for every table of non-negative values, fails on a fractional
  target: the single row \<open>19/2\<close> is swept with step 1 through ten cells and ends at 10.
\<close>

theorem display_overshoots_fractional_target:
  "0 \<le> (19 / 2 :: rat) \<and>
   map_sum id (ycol \<circ> df_temp) (animate_plot \<lparr>xcol = [''a''], ycol = [19 / 2]\<rparr>) = Inr [10] \<and>
   (10 :: rat) \<noteq> 19 / 2"
  by code_simp




text \<open>
  Claim C3. The pair of step and delay base is a function of the column maximum alone:
  it is \<open>(1, 3/10)\<close> when the maximum exceeds 8, that is when some cell does, and
  \<open>(1/10, 1/10)\<close> otherwise (also for a table without rows); two tables with the same
  maximum get the same pair, and the loops of \<^verbatim>\<open>animate_plot\<close> run with exactly this pair.
\<close>

theorem step_selection_by_max:
  "select_step df =
     (if \<exists>v\<in>set (ycol df). 8 < v then (1, 3 / 10) else (1 / 10, 1 / 10)) \<and>
   (ycol df \<noteq> [] \<longrightarrow>
      select_step df = (if 8 < Max (set (ycol df)) then (1, 3 / 10) else (1 / 10, 1 / 10))) \<and>
   (col_max (ycol df) = col_max (ycol df') \<longrightarrow> select_step df = select_step df') \<and>
   animate_plot df =
     rows_loop df (fst (select_step df)) (snd (select_step df)) [0..<shape0 df] (init_anim df)"
proof -
  have "select_step df =
     (if \<exists>v\<in>set (ycol df). 8 < v then (1, 3 / 10) else (1 / 10, 1 / 10))"
    by (simp add: select_step_def exceeds_col_max)
  moreover have "select_step df = (if 8 < Max (set (ycol df)) then (1, 3 / 10) else (1 / 10, 1 / 10))"
    if "ycol df \<noteq> []"
    using that by (simp add: select_step_def col_max_eq_Max)
  moreover have "select_step df = select_step df'" if "col_max (ycol df) = col_max (ycol df')"
    using that by (simp add: select_step_def)
  moreover have "animate_plot df =
     rows_loop df (fst (select_step df)) (snd (select_step df)) [0..<shape0 df] (init_anim df)"
    by (simp add: animate_plot_def split: prod.splits)
  ultimately show ?thesis by blast
qed

theorem step_selection_by_max_witness:
  "select_step \<lparr>xcol = [''18-19'', ''20-29''], ycol = [5, 12]\<rparr> = (1, 3 / 10) \<and>
   select_step \<lparr>xcol = [''HR'', ''IT''], ycol = [2, 3]\<rparr> = (1 / 10, 1 / 10) \<and>
   select_step \<lparr>xcol = [''a''], ycol = [8]\<rparr> = (1 / 10, 1 / 10) \<and>
   select_step \<lparr>xcol = [''x'', ''y'', ''z''], ycol = [12, 0, 12]\<rparr> =
     select_step \<lparr>xcol = [''18-19'', ''20-29''], ycol = [5, 12]\<rparr>"
  using step_selection_by_max [of "\<lparr>xcol = [''18-19'', ''20-29''], ycol = [5, 12]\<rparr>"
      "\<lparr>xcol = [''x'', ''y'', ''z''], ycol = [12, 0, 12]\<rparr>"]
    step_selection_by_max [of "\<lparr>xcol = [''HR'', ''IT''], ycol = [2, 3]\<rparr>"
      "\<lparr>xcol = [''HR'', ''IT''], ycol = [2, 3]\<rparr>"]
    step_selection_by_max [of "\<lparr>xcol = [''a''], ycol = [8]\<rparr>" "\<lparr>xcol = [''a''], ycol = [8]\<rparr>"]
  by (simp add: select_step_def)




text \<open>
  Claim C5. \<^verbatim>\<open>animate_plot\<close> returns, and its frames form a chain from the zeroed copy:
  each frame differs from the one before only in the numeric cell of the row being swept.
  The rows are swept in increasing order. In a frame of the sweep of row \<open>i\<close> the label
  column is the input's, the number of rows is the input's, every row before \<open>i\<close> holds
  the value its own sweep left (its value in the final working copy) and every row after
  \<open>i\<close> holds 0.
\<close>

theorem sweep_frame_effect:
  "\<exists>st. animate_plot df = Inr st \<and>
     frame_chain (df\<lparr>ycol := map (\<lambda>_. 0) (ycol df)\<rparr>) (frames st) \<and>
     sorted (map fst (frames st)) \<and>
     xcol (df_temp st) = xcol df \<and> length (ycol (df_temp st)) = shape0 df \<and>
     (\<forall>(i, f)\<in>set (frames st).
        i < shape0 df \<and> xcol f = xcol df \<and> length (ycol f) = shape0 df \<and>
        (\<forall>j<i. ycol f ! j = ycol (df_temp st) ! j) \<and>
        (\<forall>j. i < j \<and> j < shape0 df \<longrightarrow> ycol f ! j = 0))"
proof -
  obtain step step_time where sel: "select_step df = (step, step_time)"
    by (cases "select_step df")
  obtain st where run: "animate_plot df = Inr st"
    by (simp add: animate_plot_run [OF sel])
  from run have fin: "df_temp st = df\<lparr>ycol := map (grown step) (ycol df)\<rparr>"
    and frs: "frames st = concat (map (row_frames df step) [0..<length (ycol df)])"
    unfolding animate_plot_run [OF sel] by auto
  have chain: "frame_chain (df\<lparr>ycol := map (\<lambda>_. 0) (ycol df)\<rparr>) (frames st)"
    using animate_plot_chain [OF run] by simp
  have srt: "sorted (map fst (frames st))"
    by (simp add: frs tags_sorted)
  have fr: "i < shape0 df \<and> xcol f = xcol df \<and> length (ycol f) = shape0 df \<and>
        (\<forall>j<i. ycol f ! j = ycol (df_temp st) ! j) \<and>
        (\<forall>j. i < j \<and> j < shape0 df \<longrightarrow> ycol f ! j = 0)"
    if mem: "(i, f) \<in> set (frames st)" for i f
  proof -
    from frame_shape [OF sel run mem] obtain c where
      i: "i < length (ycol df)"
      and feq: "f = df\<lparr>ycol := (partial_col df step i)[i := step_add c step]\<rparr>"
      by blast
    from i have le: "i \<le> length (ycol df)" by simp
    have "ycol f ! j = ycol (df_temp st) ! j" if "j < i" for j
      using that i by (simp add: feq fin partial_col_nth [OF le])
    moreover have "ycol f ! j = 0" if "i < j" "j < shape0 df" for j
      using that i by (simp add: feq shape0_def partial_col_nth [OF le])
    ultimately show ?thesis using i le by (simp add: feq shape0_def)
  qed
  from run chain srt fr show ?thesis
    by (auto simp: fin shape0_def)
qed

theorem sweep_frame_effect_witness:
  "\<exists>st. animate_plot \<lparr>xcol = [''18-19'', ''20-29''], ycol = [5, 12]\<rparr> = Inr st \<and>
     frame_chain \<lparr>xcol = [''18-19'', ''20-29''], ycol = [0, 0]\<rparr> (frames st) \<and>
     sorted (map fst (frames st)) \<and>
     xcol (df_temp st) = [''18-19'', ''20-29''] \<and> length (ycol (df_temp st)) = 2"
  using sweep_frame_effect [of "\<lparr>xcol = [''18-19'', ''20-29''], ycol = [5, 12]\<rparr>"]
  by (auto simp: shape0_def)




text \<open>
  Claim C9. For every table of non-negative values \<^verbatim>\<open>animate_plot\<close> returns, so the error
  of a zero divisor is never raised. There is one sleep per frame; if any frame is painted
  then some target is positive, the column maximum is positive and every sleep lasts the
  delay base divided by that maximum. A table of zeros yields no frame and no sleep.
\<close>

theorem sleep_divisor_positive:
  assumes nonneg: "\<forall>v\<in>set (ycol df). 0 \<le> v"
  shows "\<exists>st. animate_plot df = Inr st \<and>
           length (sleeps st) = length (frames st) \<and>
           (frames st \<noteq> [] \<longrightarrow>
              (\<exists>v\<in>set (ycol df). 0 < v) \<and>
              (\<exists>m. col_max (ycol df) = Some m \<and> 0 < m \<and>
                   (\<forall>d\<in>set (sleeps st). d = snd (select_step df) / m))) \<and>
           ((\<forall>v\<in>set (ycol df). v = 0) \<longrightarrow> frames st = [] \<and> sleeps st = [])"
proof -
  obtain step step_time where sel: "select_step df = (step, step_time)"
    by (cases "select_step df")
  then have pos: "0 < step" using select_step_pos by blast
  let ?d = "step_time / Max (set (ycol df))"
  obtain st where run: "animate_plot df = Inr st"
    by (simp add: animate_plot_run [OF sel])
  from run have frs: "frames st = concat (map (row_frames df step) [0..<length (ycol df)])"
    and sls: "sleeps st = replicate (\<Sum>i<length (ycol df). length (np_arange (ycol df ! i) step)) ?d"
    unfolding animate_plot_run [OF sel] by auto
  have len: "length (sleeps st) = length (frames st)"
    by (simp add: frs sls length_all_frames)
  have none: "frames st = [] \<and> sleeps st = []" if "\<forall>v\<in>set (ycol df). v = 0"
  proof -
    have "frames st = [] \<longleftrightarrow> (\<forall>v\<in>set (ycol df). v \<le> 0)"
      unfolding frs by (rule all_frames_Nil_iff [OF pos])
    with that have "frames st = []" by auto
    with len show ?thesis by simp
  qed
  have some: "(\<exists>v\<in>set (ycol df). 0 < v) \<and>
              (\<exists>m. col_max (ycol df) = Some m \<and> 0 < m \<and>
                   (\<forall>d\<in>set (sleeps st). d = snd (select_step df) / m))"
    if "frames st \<noteq> []"
  proof -
    have "frames st = [] \<longleftrightarrow> (\<forall>v\<in>set (ycol df). v \<le> 0)"
      unfolding frs by (rule all_frames_Nil_iff [OF pos])
    with that have "\<not> (\<forall>v\<in>set (ycol df). v \<le> 0)" by blast
    then obtain v where v: "v \<in> set (ycol df)" "0 < v"
      by (auto simp: not_le)
    then have ne: "ycol df \<noteq> []" by auto
    have "v \<le> Max (set (ycol df))" using v(1) by simp
    with v(2) have "0 < Max (set (ycol df))" by linarith
    moreover have "\<forall>d\<in>set (sleeps st). d = snd (select_step df) / Max (set (ycol df))"
      by (simp add: sls sel)
    ultimately show ?thesis using v by (auto simp: col_max_eq_Max [OF ne])
  qed
  from run len none some show ?thesis by blast
qed

theorem sleep_divisor_positive_witness:
  "(0 :: rat) \<le> 0 \<and>
   (\<exists>st. animate_plot \<lparr>xcol = [''a'', ''b''], ycol = [0, 0]\<rparr> = Inr st \<and>
      frames st = [] \<and> sleeps st = [])"
  using sleep_divisor_positive [of "\<lparr>xcol = [''a'', ''b''], ycol = [0, 0]\<rparr>"]
  by auto

text \<open>
  Claim C10. For every table, negative cells included, \<^verbatim>\<open>animate_plot\<close> returns; a row
  whose target is negative or 0 gets no frame of its own, and its value is 0 in every frame
  and in the final working copy.
\<close>

theorem nonpositive_rows_skipped:
  "\<exists>st. animate_plot df = Inr st \<and>
     (\<forall>i<shape0 df. ycol df ! i \<le> 0 \<longrightarrow>
        filter (\<lambda>(r, f). r = i) (frames st) = [] \<and>
        ycol (df_temp st) ! i = 0 \<and>
        (\<forall>f\<in>snd ` set (frames st). ycol f ! i = 0))"
proof -
  obtain step step_time where sel: "select_step df = (step, step_time)"
    by (cases "select_step df")
  then have pos: "0 < step" using select_step_pos by blast
  obtain st where run: "animate_plot df = Inr st"
    by (simp add: animate_plot_run [OF sel])
  from run have fin: "df_temp st = df\<lparr>ycol := map (grown step) (ycol df)\<rparr>"
    and frs: "frames st = concat (map (row_frames df step) [0..<length (ycol df)])"
    unfolding animate_plot_run [OF sel] by auto
  have "filter (\<lambda>(r, f). r = i) (frames st) = [] \<and> ycol (df_temp st) ! i = 0 \<and>
        (\<forall>f\<in>snd ` set (frames st). ycol f ! i = 0)"
    if i: "i < shape0 df" and T: "ycol df ! i \<le> 0" for i
  proof -
    from i have i': "i < length (ycol df)" by (simp add: shape0_def)
    have g: "grown step (ycol df ! i) = 0" using pos T by (rule grown_nonpos)
    have a: "filter (\<lambda>(r, f). r = i) (frames st) = []"
      using i' T by (simp add: frs filter_all_frames row_frames_Nil_iff [OF pos])
    have b: "ycol (df_temp st) ! i = 0" using i' g by (simp add: fin)
    have c: "ycol f ! i = 0" if mem: "(r, f) \<in> set (frames st)" for r f
    proof -
      from frame_shape [OF sel run mem] obtain c where
        r: "r < length (ycol df)" and c: "c \<in> set (np_arange (ycol df ! r) step)"
        and feq: "f = df\<lparr>ycol := (partial_col df step r)[r := step_add c step]\<rparr>"
        by blast
      have "r \<noteq> i"
      proof
        assume "r = i"
        from c have "np_arange (ycol df ! r) step \<noteq> []" by auto
        with pos have "0 < ycol df ! r" by (simp add: np_arange_Nil_iff)
        with T \<open>r = i\<close> show False by simp
      qed
      with r i' g show ?thesis by (simp add: feq partial_col_nth)
    qed
    from a b c show ?thesis by auto
  qed
  with run show ?thesis by blast
qed

theorem nonpositive_rows_skipped_witness:
  "(0 :: nat) < shape0 \<lparr>xcol = [''a'', ''b''], ycol = [- 3, 2]\<rparr> \<and> (- 3 :: rat) \<le> 0 \<and>
   (\<exists>st. animate_plot \<lparr>xcol = [''a'', ''b''], ycol = [- 3, 2]\<rparr> = Inr st \<and>
      filter (\<lambda>(r, f). r = 0) (frames st) = [] \<and> ycol (df_temp st) ! 0 = 0)"
  using nonpositive_rows_skipped [of "\<lparr>xcol = [''a'', ''b''], ycol = [- 3, 2]\<rparr>"]
  by (auto simp: shape0_def)

section \<open>Claims about the filters\<close>

text \<open>
  Claim C7. Selecting \<^verbatim>\<open>All\<close> in the hometown box returns the table unchanged, so the
  table shown is what the other two filters leave; any other selection returns exactly the
  rows whose \<^verbatim>\<open>Hometown\<close> equals the selection, in their order.
\<close>

theorem hometown_filter:
  "filter_hometown ''All'' df = df \<and>
   (sel \<noteq> ''All'' \<longrightarrow> filter_hometown sel df = filter (\<lambda>r. Hometown r = sel) df) \<and>
   employees_filtred tid ''All'' sel_unit df =
     map_option (filter_unit sel_unit) (filter_employee_id tid df)"
proof -
  have all: "filter_hometown ''All'' d = d" for d
    by (simp add: filter_hometown_def)
  have "bool_index df (map (\<lambda>h. h = sel) (map Hometown df)) =
        bool_index df (map (\<lambda>r. Hometown r = sel) df)"
    by (simp add: comp_def)
  also have "\<dots> = filter (\<lambda>r. Hometown r = sel) df"
    by (rule bool_index_map)
  finally have one: "filter_hometown sel df = filter (\<lambda>r. Hometown r = sel) df"
    if "sel \<noteq> ''All''"
    using that by (simp add: filter_hometown_def)
  have "filter_unit sel_unit \<circ> filter_hometown ''All'' = filter_unit sel_unit"
    by (rule ext) (simp add: all)
  then have "employees_filtred tid ''All'' sel_unit df =
     map_option (filter_unit sel_unit) (filter_employee_id tid df)"
    by (simp only: employees_filtred_def)
  with all one show ?thesis by blast
qed

theorem hometown_filter_witness:
  "''Lebanon'' \<noteq> ''All'' \<and>
   filter_hometown ''All''
     [\<lparr>Employee_ID = ''EID_1'', Hometown = ''Lebanon'', Unit = ''IT''\<rparr>,
      \<lparr>Employee_ID = ''EID_2'', Hometown = ''Springfield'', Unit = ''Sales''\<rparr>,
      \<lparr>Employee_ID = ''EID_3'', Hometown = ''Lebanon'', Unit = ''Logistics''\<rparr>] =
     [\<lparr>Employee_ID = ''EID_1'', Hometown = ''Lebanon'', Unit = ''IT''\<rparr>,
      \<lparr>Employee_ID = ''EID_2'', Hometown = ''Springfield'', Unit = ''Sales''\<rparr>,
      \<lparr>Employee_ID = ''EID_3'', Hometown = ''Lebanon'', Unit = ''Logistics''\<rparr>] \<and>
   filter_hometown ''Lebanon''
     [\<lparr>Employee_ID = ''EID_1'', Hometown = ''Lebanon'', Unit = ''IT''\<rparr>,
      \<lparr>Employee_ID = ''EID_2'', Hometown = ''Springfield'', Unit = ''Sales''\<rparr>,
      \<lparr>Employee_ID = ''EID_3'', Hometown = ''Lebanon'', Unit = ''Logistics''\<rparr>] =
     [\<lparr>Employee_ID = ''EID_1'', Hometown = ''Lebanon'', Unit = ''IT''\<rparr>,
      \<lparr>Employee_ID = ''EID_3'', Hometown = ''Lebanon'', Unit = ''Logistics''\<rparr>]"
  using hometown_filter [of
      "[\<lparr>Employee_ID = ''EID_1'', Hometown = ''Lebanon'', Unit = ''IT''\<rparr>,
        \<lparr>Employee_ID = ''EID_2'', Hometown = ''Springfield'', Unit = ''Sales''\<rparr>,
        \<lparr>Employee_ID = ''EID_3'', Hometown = ''Lebanon'', Unit = ''Logistics''\<rparr>]"
      "''Lebanon''" "[]" "''All''"]
  by simp

text \<open>
  Claim C8, as amended. An empty input filters nothing. A non-empty input made of ASCII
  characters none of which is special in a regular expression keeps exactly the rows whose
  \<^verbatim>\<open>Employee_ID\<close> contains the input as a substring, letter case ignored.
\<close>

theorem employee_id_filter_plain_text:
  "filter_employee_id [] df = Some df \<and>
   (pat \<noteq> [] \<and> (\<forall>c\<in>set pat. \<not> re_special c \<and> of_char c < (128 :: nat)) \<longrightarrow>
      filter_employee_id pat df =
        Some (filter (\<lambda>r. sublist (map lower_chr pat) (map lower_chr (Employee_ID r))) df))"
proof -
  have "filter_employee_id pat df =
        Some (filter (\<lambda>r. sublist (map lower_chr pat) (map lower_chr (Employee_ID r))) df)"
    if "pat \<noteq> []" and plain: "\<forall>c\<in>set pat. \<not> re_special c \<and> of_char c < (128 :: nat)"
  proof -
    have "str_contains (map Employee_ID df) pat =
          Some (map (\<lambda>r. sublist (map lower_chr pat) (map lower_chr (Employee_ID r))) df)"
      by (simp add: str_contains_def re_parse_plain [OF plain] re_search_literal)
    with that(1) show ?thesis
      by (simp add: filter_employee_id_def bool_index_map)
  qed
  then show ?thesis by (simp add: filter_employee_id_def)
qed

theorem employee_id_filter_plain_text_witness:
  "''eid_2'' \<noteq> [] \<and> \<not> re_special CHR ''e'' \<and> \<not> re_special CHR ''i'' \<and> \<not> re_special CHR ''d'' \<and>
   \<not> re_special CHR ''_'' \<and> \<not> re_special CHR ''2'' \<and>
   filter_employee_id ''eid_2''
     [\<lparr>Employee_ID = ''EID_1'', Hometown = ''Lebanon'', Unit = ''IT''\<rparr>,
      \<lparr>Employee_ID = ''EID_22'', Hometown = ''Springfield'', Unit = ''Sales''\<rparr>] =
     Some [\<lparr>Employee_ID = ''EID_22'', Hometown = ''Springfield'', Unit = ''Sales''\<rparr>] \<and>
   filter_employee_id []
     [\<lparr>Employee_ID = ''EID_1'', Hometown = ''Lebanon'', Unit = ''IT''\<rparr>] =
     Some [\<lparr>Employee_ID = ''EID_1'', Hometown = ''Lebanon'', Unit = ''IT''\<rparr>]"
proof -
  have plain: "\<forall>c\<in>set ''eid_2''. \<not> re_special c \<and> of_char c < (128 :: nat)"
    by (simp add: re_special_def)
  have yes: "sublist (map lower_chr ''eid_2'') (map lower_chr ''EID_22'')"
    by code_simp
  have no: "\<not> sublist (map lower_chr ''eid_2'') (map lower_chr ''EID_1'')"
    by code_simp
  from plain yes no
    employee_id_filter_plain_text [of
      "[\<lparr>Employee_ID = ''EID_1'', Hometown = ''Lebanon'', Unit = ''IT''\<rparr>,
        \<lparr>Employee_ID = ''EID_22'', Hometown = ''Springfield'', Unit = ''Sales''\<rparr>]" "''eid_2''"]
    employee_id_filter_plain_text [of
      "[\<lparr>Employee_ID = ''EID_1'', Hometown = ''Lebanon'', Unit = ''IT''\<rparr>]" "''eid_2''"]
  show ?thesis by (simp add: re_special_def)
qed

text \<open>
  The claim as first stated, for every non-empty input, fails: the input is compiled as a
  regular expression, so a single dot keeps the row \<^verbatim>\<open>EID_1\<close>, which contains no dot.
\<close>

theorem employee_id_filter_reads_regex:
  "''.'' \<noteq> [] \<and>
   filter_employee_id ''.'' [\<lparr>Employee_ID = ''EID_1'', Hometown = ''Lebanon'', Unit = ''IT''\<rparr>] =
     Some [\<lparr>Employee_ID = ''EID_1'', Hometown = ''Lebanon'', Unit = ''IT''\<rparr>] \<and>
   \<not> sublist (map lower_chr ''.'') (map lower_chr ''EID_1'')"
  by code_simp

end
